theory Spec2Isabelle
  imports
    Main
    "HOL-Library.AList"
    "HOL-Library.Char_ord"
    "HOL-Library.List_Lexorder"
    "HOL-Library.Product_Lexorder"
begin

section \<open>Data model\<close>

text \<open>
  The graph of \<^verbatim>\<open>GraphRouteFinder\<close> is a Python dict from node to a dict from
  neighbour to weight. Python dicts keep insertion order, so both levels are association
  lists: \<open>map_of\<close> is the lookup, \<open>AList.update\<close> is item assignment (in place for an
  existing key, appended for a new one) and \<open>AList.delete\<close> is \<^verbatim>\<open>del\<close>. Nodes are
  strings in the program; the algorithm only compares them, so the node type is any linear
  order (strings with the lexicographic order are an instance). Weights are the exact
  integers of the built-in graph.
\<close>

type_synonym 'n adjacency = "('n \<times> int) list"
type_synonym 'n graph = "('n \<times> 'n adjacency) list"

datatype error = KeyError

text \<open>A tentative distance is a number or \<^verbatim>\<open>float('inf')\<close>.\<close>

datatype distance = Num int | Infinity

text \<open>\<^verbatim>\<open>new_dist < dist[neighbor]\<close>, with a finite left-hand side.\<close>

fun less_dist :: "int \<Rightarrow> distance \<Rightarrow> bool" where
  "less_dist d Infinity = True"
| "less_dist d (Num e) = (d < e)"

text \<open>\<^verbatim>\<open>graph[a][b]\<close> when both keys exist: the weight of the edge from \<open>a\<close> to \<open>b\<close>.\<close>

definition edge :: "'n graph \<Rightarrow> 'n \<Rightarrow> 'n \<Rightarrow> int option" where
  "edge graph a b = (case map_of graph a of None \<Rightarrow> None | Some adj \<Rightarrow> map_of adj b)"

section \<open>Graph mutation\<close>

text \<open>
  \<^verbatim>\<open>add_edge\<close>: create the two nodes when absent, then store the weight in both inner
  dicts. \<open>AList.map_entry\<close> changes the value stored under a key that exists, which is
  what \<^verbatim>\<open>self.graph[node1][node2] = weight\<close> does to the inner dict.
\<close>

definition add_edge :: "'n \<Rightarrow> 'n \<Rightarrow> int \<Rightarrow> 'n graph \<Rightarrow> 'n graph" where
  "add_edge node1 node2 weight graph =
     (let g1 = (if map_of graph node1 = None then AList.update node1 [] graph else graph);
          g2 = (if map_of g1 node2 = None then AList.update node2 [] g1 else g1);
          g3 = AList.map_entry node1 (AList.update node2 weight) g2;
          g4 = AList.map_entry node2 (AList.update node1 weight) g3
      in g4)"

definition remove_edge :: "'n \<Rightarrow> 'n \<Rightarrow> 'n graph \<Rightarrow> 'n graph" where
  "remove_edge node1 node2 graph =
     (let g1 = (if (case map_of graph node1 of None \<Rightarrow> False
                    | Some adj \<Rightarrow> map_of adj node2 \<noteq> None)
                then AList.map_entry node1 (AList.delete node2) graph else graph);
          g2 = (if (case map_of g1 node2 of None \<Rightarrow> False
                    | Some adj \<Rightarrow> map_of adj node1 \<noteq> None)
                then AList.map_entry node2 (AList.delete node1) g1 else g1)
      in g2)"

definition get_nodes :: "'n graph \<Rightarrow> 'n list" where
  "get_nodes graph = map fst graph"

definition default_graph :: "string graph" where
  "default_graph =
     [(''A'', [(''B'', 4), (''C'', 2)]),
      (''B'', [(''A'', 4), (''C'', 1), (''D'', 5)]),
      (''C'', [(''A'', 2), (''B'', 1), (''D'', 8), (''E'', 10)]),
      (''D'', [(''B'', 5), (''C'', 8), (''E'', 2), (''F'', 6)]),
      (''E'', [(''C'', 10), (''D'', 2), (''F'', 2)]),
      (''F'', [(''D'', 6), (''E'', 2)])]"

section \<open>Shortest paths\<close>

text \<open>
  The local variables of \<^verbatim>\<open>dijkstra\<close>. The heap \<^verbatim>\<open>pq\<close> holds pairs
  \<open>(distance, node)\<close>, which Python compares lexicographically; \<^verbatim>\<open>heappop\<close> removes
  and returns the least pair, so the heap is a list from which the minimum is taken.
\<close>

record 'n state =
  pq :: "(int \<times> 'n) list"
  dist :: "'n \<rightharpoonup> distance"
  parent :: "'n \<rightharpoonup> 'n option"
  visited :: "'n set"

definition heappush :: "(int \<times> 'n) list \<Rightarrow> int \<times> 'n \<Rightarrow> (int \<times> 'n) list" where
  "heappush h x = h @ [x]"

text \<open>The \<^verbatim>\<open>for neighbor, weight in self.graph[node].items()\<close> loop.\<close>

fun relax :: "int \<Rightarrow> 'n \<Rightarrow> 'n adjacency \<Rightarrow> 'n state \<Rightarrow> error + 'n state" where
  "relax curr_dist node [] s = Inr s"
| "relax curr_dist node ((neighbor, weight) # items) s =
     (if neighbor \<notin> visited s then
        (let new_dist = curr_dist + weight in
         case dist s neighbor of
           None \<Rightarrow> Inl KeyError
         | Some d \<Rightarrow>
             if less_dist new_dist d
             then relax curr_dist node items
                    (s\<lparr>dist := (dist s)(neighbor \<mapsto> Num new_dist),
                       parent := (parent s)(neighbor \<mapsto> Some node),
                       pq := heappush (pq s) (new_dist, neighbor)\<rparr>)
             else relax curr_dist node items s)
      else relax curr_dist node items s)"

text \<open>The \<^verbatim>\<open>while pq\<close> loop, one call per iteration.\<close>

function loop :: "('n::linorder) graph \<Rightarrow> 'n \<Rightarrow> 'n state \<Rightarrow> error + 'n state" where
  "loop graph end_node s =
     (if pq s = [] then Inr s
      else
        (let (curr_dist, node) = Min (set (pq s));
             s1 = s\<lparr>pq := remove1 (curr_dist, node) (pq s)\<rparr>
         in if node \<in> visited s1 then loop graph end_node s1
            else
              (let s2 = s1\<lparr>visited := insert node (visited s1)\<rparr>
               in if node = end_node then Inr s2
                  else (case map_of graph node of
                          None \<Rightarrow> Inl KeyError
                        | Some items \<Rightarrow>
                            (case relax curr_dist node items s2 of
                               Inl e \<Rightarrow> Inl e
                             | Inr s3 \<Rightarrow> loop graph end_node s3)))))"
  by pat_completeness auto
termination
proof (relation "measures [\<lambda>(graph, end_node, s). card (fst ` set graph - visited s),
                           \<lambda>(graph, end_node, s). length (pq s)]", goal_cases)
  case 1
  then show ?case by simp
next
  case (2 graph end_node s x curr_dist node s1)
  have "Min (set (pq s)) \<in> set (pq s)"
    using 2(1) by (intro Min_in) auto
  then have "(curr_dist, node) \<in> set (pq s)"
    using 2 by simp
  then have "length (remove1 (curr_dist, node) (pq s)) < length (pq s)"
    using 2(1) by (simp add: length_remove1)
  then show ?case using 2 by simp
next
  case (3 graph end_node s x curr_dist node s1 s2 items s3)
  have keep: "visited t' = visited t" if "relax m n xs t = Inr t'"
    for m n xs and t t' :: "'n state"
    using that
    by (induction xs arbitrary: t) (auto simp: Let_def split: if_splits option.splits)
  have "visited s3 = visited s2"
    using 3 by (metis keep)
  then have v: "visited s3 = insert node (visited s)"
    using 3 by simp
  have "map_of graph node = Some items"
    using 3 by simp
  then have "node \<in> fst ` set graph"
    by (metis map_of_SomeD image_eqI fst_conv)
  moreover have "node \<notin> visited s" using 3 by simp
  ultimately have "fst ` set graph - visited s3 \<subset> fst ` set graph - visited s"
    unfolding v by auto
  then have "card (fst ` set graph - visited s3) < card (fst ` set graph - visited s)"
    by (intro psubset_card_mono) auto
  then show ?case by simp
qed

declare loop.simps [simp del]

text \<open>
  The path reconstruction \<^verbatim>\<open>while step is not None\<close>. Nothing in the loop itself
  bounds the number of iterations, so a run that never ends is the value \<open>None\<close>.
\<close>

partial_function (option) reconstruct ::
  "('n \<rightharpoonup> 'n option) \<Rightarrow> 'n option \<Rightarrow> 'n list \<Rightarrow> (error + 'n list) option" where
  "reconstruct par step path =
     (case step of
        None \<Rightarrow> Some (Inr path)
      | Some n \<Rightarrow>
          (case par n of
             None \<Rightarrow> Some (Inl KeyError)
           | Some p \<Rightarrow> reconstruct par p (path @ [n])))"

declare reconstruct.simps [code]

definition init_state :: "'n graph \<Rightarrow> 'n \<Rightarrow> 'n state" where
  "init_state graph start =
     \<lparr>pq = [(0, start)],
      dist = (map_of (map (\<lambda>(node, adj). (node, Infinity)) graph))(start \<mapsto> Num 0),
      parent = map_of (map (\<lambda>(node, adj). (node, None)) graph),
      visited = {}\<rparr>"

definition dijkstra ::
  "('n::linorder) graph \<Rightarrow> 'n \<Rightarrow> 'n \<Rightarrow> (error + distance \<times> 'n list) option" where
  "dijkstra graph start end_node =
     (if map_of graph start = None \<or> map_of graph end_node = None
      then Some (Inr (Infinity, []))
      else
        (case loop graph end_node (init_state graph start) of
           Inl e \<Rightarrow> Some (Inl e)
         | Inr s \<Rightarrow>
             (case reconstruct (parent s) (Some end_node) [] of
                None \<Rightarrow> None
              | Some (Inl e) \<Rightarrow> Some (Inl e)
              | Some (Inr path) \<Rightarrow>
                  (case dist s end_node of
                     None \<Rightarrow> Some (Inl KeyError)
                   | Some d \<Rightarrow>
                       if d = Infinity then Some (Inr (Infinity, []))
                       else Some (Inr (d, rev path))))))"

section \<open>Properties of graphs\<close>

text \<open>
  The undirected invariant: whenever \<open>b\<close> is a neighbour of \<open>a\<close>, the entry the other
  way round exists and carries the same weight. The quantifiers range over the keys that
  are stored, so the predicate can be evaluated on a concrete graph.
\<close>

definition symmetric :: "'n graph \<Rightarrow> bool" where
  "symmetric graph =
     (\<forall>a \<in> set (map fst graph).
        case map_of graph a of
          None \<Rightarrow> True
        | Some adj \<Rightarrow> (\<forall>b \<in> set (map fst adj). edge graph b a = edge graph a b))"

text \<open>
  Every neighbour that is stored is itself a node of the graph. A symmetric graph has this
  property, and so has every graph built by \<open>add_edge\<close> and \<open>remove_edge\<close>.
\<close>

definition closed :: "'n graph \<Rightarrow> bool" where
  "closed graph =
     (\<forall>a \<in> set (map fst graph).
        case map_of graph a of
          None \<Rightarrow> True
        | Some adj \<Rightarrow> (\<forall>b \<in> set (map fst adj). map_of graph b \<noteq> None))"

text \<open>
  The total weight of a sequence of nodes, when each is a neighbour of the one before it
  (the running total that \<^verbatim>\<open>find_route\<close> prints), and \<open>None\<close> when the sequence
  is empty or leaves the graph.
\<close>

fun walk_weight :: "'n graph \<Rightarrow> 'n list \<Rightarrow> int option" where
  "walk_weight graph [] = None"
| "walk_weight graph [x] = (if map_of graph x = None then None else Some 0)"
| "walk_weight graph (x # y # p) =
     (case edge graph x y of
        None \<Rightarrow> None
      | Some w \<Rightarrow>
          (case walk_weight graph (y # p) of
             None \<Rightarrow> None
           | Some W \<Rightarrow> Some (w + W)))"

definition walk :: "'n graph \<Rightarrow> 'n \<Rightarrow> 'n \<Rightarrow> 'n list \<Rightarrow> int \<Rightarrow> bool" where
  "walk graph a b q W \<longleftrightarrow> q \<noteq> [] \<and> hd q = a \<and> last q = b \<and> walk_weight graph q = Some W"

definition connected :: "'n graph \<Rightarrow> 'n \<Rightarrow> 'n \<Rightarrow> bool" where
  "connected graph a b \<longleftrightarrow> (\<exists>q W. walk graph a b q W)"

text \<open>
  What holds before every iteration of the main loop on any graph: the keys of \<open>dist\<close>
  are the nodes of the graph, which also have entries in \<open>parent\<close>, the heap holds nodes of the graph with a finite
  tentative distance, and a finite tentative distance is only given to a node that some
  walk from \<open>start\<close> reaches.
\<close>

definition sound :: "'n graph \<Rightarrow> 'n \<Rightarrow> 'n state \<Rightarrow> bool" where
  "sound graph start s \<longleftrightarrow>
     (\<forall>x. (dist s x \<noteq> None) = (map_of graph x \<noteq> None)) \<and>
     (\<forall>x. map_of graph x \<noteq> None \<longrightarrow> parent s x \<noteq> None) \<and>
     (\<forall>e \<in> set (pq s). map_of graph (snd e) \<noteq> None \<and> (\<exists>d. dist s (snd e) = Some (Num d))) \<and>
     (\<forall>x d. dist s x = Some (Num d) \<longrightarrow> connected graph start x)"

definition two_nodes :: "string graph" where
  "two_nodes = [(''A'', [(''B'', 4)]), (''B'', [(''A'', 4)])]"

text \<open>
  The three assignments in the body of the innermost \<^verbatim>\<open>if\<close> of the loop over the
  neighbours, as one update of the state.
\<close>

definition improve :: "'n \<Rightarrow> 'n \<Rightarrow> int \<Rightarrow> 'n state \<Rightarrow> 'n state" where
  "improve node neighbor new_dist s =
     s\<lparr>dist := (dist s)(neighbor \<mapsto> Num new_dist),
       parent := (parent s)(neighbor \<mapsto> Some node),
       pq := heappush (pq s) (new_dist, neighbor)\<rparr>"

text \<open>
  Following the \<open>parent\<close> pointers from a node: the pointer is \<^verbatim>\<open>None\<close>, or it leads to
  a node of \<open>V\<close> from which the pointers can be followed in the same way.
\<close>

inductive pchain :: "('n \<rightharpoonup> 'n option) \<Rightarrow> 'n set \<Rightarrow> 'n \<Rightarrow> bool"
  for par :: "'n \<rightharpoonup> 'n option" and V :: "'n set" where
  root: "par x = Some None \<Longrightarrow> pchain par V x"
| link: "par x = Some (Some p) \<Longrightarrow> p \<in> V \<Longrightarrow> pchain par V p \<Longrightarrow> pchain par V x"

text \<open>
  What holds of the pointers before every iteration of the main loop, whatever the graph:
  every node that has a pointer can be traced back through visited nodes, and the visited
  nodes and the nodes on the heap have pointers.
\<close>

definition traceable :: "'n state \<Rightarrow> bool" where
  "traceable s \<longleftrightarrow>
     (\<forall>x. parent s x \<noteq> None \<longrightarrow> pchain (parent s) (visited s) x) \<and>
     (\<forall>v \<in> visited s. parent s v \<noteq> None) \<and>
     (\<forall>e \<in> set (pq s). parent s (snd e) \<noteq> None)"







text \<open>Two sample graphs: one with an isolated node, one with a neighbour that is not a node.\<close>

definition islands :: "string graph" where
  "islands = [(''A'', [(''B'', 4)]), (''B'', [(''A'', 4)]), (''C'', [])]"

definition dangling :: "string graph" where
  "dangling = [(''A'', [(''B'', 1)]), (''C'', [])]"

section \<open>Lookups after a mutation\<close>

lemma map_of_keys: "(map_of xs k \<noteq> None) = (k \<in> set (map fst xs))"
  by (simp add: map_of_eq_None_iff)

lemma symmetric_iff: "symmetric g \<longleftrightarrow> (\<forall>a b. edge g a b = edge g b a)"
proof
  assume s: "symmetric g"
  have half: "edge g b a = Some w" if "edge g a b = Some w" for a b w
  proof -
    from that obtain adj where adj: "map_of g a = Some adj" "map_of adj b = Some w"
      by (auto simp: edge_def split: option.splits)
    then have ka: "a \<in> set (map fst g)" and kb: "b \<in> set (map fst adj)"
      using map_of_keys[of g a] map_of_keys[of adj b] by auto
    from s ka have "case map_of g a of None \<Rightarrow> True
        | Some adj \<Rightarrow> (\<forall>b \<in> set (map fst adj). edge g b a = edge g a b)"
      unfolding symmetric_def by blast
    with adj kb have "edge g b a = edge g a b"
      by auto
    with that show ?thesis by simp
  qed
  show "\<forall>a b. edge g a b = edge g b a"
  proof (intro allI)
    fix a b
    show "edge g a b = edge g b a"
      by (cases "edge g a b"; cases "edge g b a") (auto dest: half)
  qed
next
  assume "\<forall>a b. edge g a b = edge g b a"
  then show "symmetric g"
    by (auto simp: symmetric_def split: option.splits)
qed

lemma map_of_add_edge_None:
  "(map_of (add_edge a b w g) x = None) = (x \<noteq> a \<and> x \<noteq> b \<and> map_of g x = None)"
  by (auto simp: add_edge_def Let_def map_of_map_entry update_conv' split: option.splits if_splits)

lemma edge_add_edge:
  "edge (add_edge a b w g) x y =
     (if (x = a \<and> y = b) \<or> (x = b \<and> y = a) then Some w else edge g x y)"
  by (auto simp: edge_def add_edge_def Let_def map_of_map_entry update_conv'
           split: option.splits if_splits)

lemma edge_remove_edge:
  "edge (remove_edge a b g) x y =
     (if (x = a \<and> y = b) \<or> (x = b \<and> y = a) then None else edge g x y)"
  by (auto simp: edge_def remove_edge_def Let_def map_of_map_entry delete_conv'
           split: option.splits if_splits)

lemma map_fst_map_entry: "map fst (AList.map_entry k f xs) = map fst xs"
  by (induction xs) auto

lemma get_nodes_remove_edge: "get_nodes (remove_edge a b g) = get_nodes g"
  by (simp add: get_nodes_def remove_edge_def Let_def map_fst_map_entry)

lemma remove_edge_absent:
  "edge g a b = None \<Longrightarrow> edge g b a = None \<Longrightarrow> remove_edge a b g = g"
  by (auto simp: edge_def remove_edge_def Let_def split: option.splits)



section \<open>Unfolding the path reconstruction\<close>

lemma map_of_const:
  "map_of (map (\<lambda>(node, adj). (node, c)) g) x = (if map_of g x = None then None else Some c)"
  by (induction g) auto

lemma in_get_nodes: "x \<in> set (get_nodes g) \<longleftrightarrow> map_of g x \<noteq> None"
  using map_of_keys[of g x] by (simp add: get_nodes_def)

lemma reconstruct_None: "reconstruct par None path = Some (Inr path)"
  by (subst reconstruct.simps) simp

lemma reconstruct_Some:
  "par n = Some p \<Longrightarrow> reconstruct par (Some n) path = reconstruct par p (path @ [n])"
  by (subst reconstruct.simps) simp

lemma reconstruct_KeyError:
  "par n = None \<Longrightarrow> reconstruct par (Some n) path = Some (Inl KeyError)"
  by (subst reconstruct.simps) simp

section \<open>The built-in graph, the start node itself, and the mutations\<close>

text \<open>
  Claim C2, as the code behaves: on the built-in graph, \<open>dijkstra\<close> from \<open>A\<close> to \<open>F\<close>
  returns the path \<open>A, C, B, D, E, F\<close>, whose weights 2, 1, 5, 2, 2 add up to 12.
\<close>
theorem sample_route:
  "dijkstra default_graph ''A'' ''F'' =
     Some (Inr (Num 12, [''A'', ''C'', ''B'', ''D'', ''E'', ''F'']))"
  by code_simp

text \<open>
  Claim C2, as stated, asks for total weight 10 on that path; the call does not return it.
\<close>
theorem sample_route_not_10:
  "dijkstra default_graph ''A'' ''F'' \<noteq>
     Some (Inr (Num 10, [''A'', ''C'', ''B'', ''D'', ''E'', ''F'']))"
  by code_simp

text \<open>
  Claim C4: for every node \<open>x\<close> of the graph, \<open>dijkstra\<close> from \<open>x\<close> to \<open>x\<close> returns
  weight 0 and the one-element path \<open>[x]\<close>. The first pop visits \<open>x\<close> and leaves the loop.
\<close>
theorem dijkstra_reflexive:
  assumes "x \<in> set (get_nodes g)"
  shows "dijkstra g x x = Some (Inr (Num 0, [x]))"
proof -
  from assms have k: "map_of g x \<noteq> None"
    by (simp add: in_get_nodes)
  let ?s2 = "(init_state g x)\<lparr>pq := remove1 (0, x) (pq (init_state g x)),
                visited := insert x (visited (init_state g x))\<rparr>"
  have l: "loop g x (init_state g x) = Inr ?s2"
    by (subst loop.simps) (simp add: init_state_def)
  have p: "parent (init_state g x) x = Some None"
    using k by (simp add: init_state_def map_of_const)
  have r: "reconstruct (parent (init_state g x)) (Some x) [] = Some (Inr [x])"
    using reconstruct_Some[of "parent (init_state g x)" x None "[]"] p
    by (simp add: reconstruct_None)
  have d: "dist (init_state g x) x = Some (Num 0)"
    by (simp add: init_state_def)
  show ?thesis
    using k by (simp add: dijkstra_def l r d)
qed

theorem dijkstra_reflexive_witness:
  "''C'' \<in> set (get_nodes default_graph) \<and>
   dijkstra default_graph ''C'' ''C'' = Some (Inr (Num 0, [''C'']))"
proof -
  have h: "''C'' \<in> set (get_nodes default_graph)"
    by (simp add: get_nodes_def default_graph_def)
  show ?thesis using h dijkstra_reflexive [OF h] by simp
qed

text \<open>
  Claim C5: \<open>add_edge\<close> and \<open>remove_edge\<close> keep a symmetric graph symmetric (\<open>y\<close> is a
  neighbour of \<open>x\<close> with weight \<open>v\<close> exactly when \<open>x\<close> is a neighbour of \<open>y\<close> with
  weight \<open>v\<close>), and right after \<open>add_edge a b w\<close> both \<open>graph[a][b]\<close> and
  \<open>graph[b][a]\<close> are \<open>w\<close>.
\<close>
theorem symmetry_preserved:
  assumes "symmetric g"
  shows "symmetric (add_edge a b w g) \<and> symmetric (remove_edge a b g) \<and>
         (\<forall>x y v. edge (add_edge a b w g) x y = Some v \<longleftrightarrow>
                  edge (add_edge a b w g) y x = Some v) \<and>
         (\<forall>x y v. edge (remove_edge a b g) x y = Some v \<longleftrightarrow>
                  edge (remove_edge a b g) y x = Some v) \<and>
         edge (add_edge a b w g) a b = Some w \<and> edge (add_edge a b w g) b a = Some w"
proof -
  from assms have s: "edge g x y = edge g y x" for x y
    by (simp add: symmetric_iff)
  have 1: "edge (add_edge a b w g) x y = edge (add_edge a b w g) y x" for x y
    using s[of x y] by (auto simp: edge_add_edge)
  have 2: "edge (remove_edge a b g) x y = edge (remove_edge a b g) y x" for x y
    using s[of x y] by (auto simp: edge_remove_edge)
  have "symmetric (add_edge a b w g)" "symmetric (remove_edge a b g)"
    using 1 2 by (simp_all add: symmetric_iff)
  moreover have "edge (add_edge a b w g) a b = Some w" "edge (add_edge a b w g) b a = Some w"
    by (simp_all add: edge_add_edge)
  ultimately show ?thesis
    using 1 2 by simp
qed

theorem symmetry_preserved_witness:
  "symmetric two_nodes \<and>
   symmetric (add_edge ''B'' ''C'' 7 two_nodes) \<and>
   symmetric (remove_edge ''A'' ''B'' two_nodes) \<and>
   edge (add_edge ''B'' ''C'' 7 two_nodes) ''B'' ''C'' = Some 7 \<and>
   edge (add_edge ''B'' ''C'' 7 two_nodes) ''C'' ''B'' = Some 7"
proof -
  have h: "symmetric two_nodes"
    by (simp add: symmetric_def two_nodes_def edge_def)
  show ?thesis
    using h symmetry_preserved [OF h, of "''B''" "''C''" 7]
      symmetry_preserved [OF h, of "''A''" "''B''" 0] by simp
qed

text \<open>
  Claim C6, as stated, has \<open>add_edge\<close> fail on a weight that is not positive. The method
  has no check and no \<^verbatim>\<open>raise\<close>: called with weight \<open>-1\<close> on the built-in graph it returns
  with that weight stored in both directions.
\<close>
theorem add_edge_accepts_nonpositive_example:
  "edge (add_edge ''A'' ''B'' (- 1) default_graph) ''A'' ''B'' = Some (- 1) \<and>
   edge (add_edge ''A'' ''B'' (- 1) default_graph) ''B'' ''A'' = Some (- 1)"
  by (simp add: edge_add_edge)

text \<open>
  Claim C6, as the code behaves: for every weight \<open>w \<le> 0\<close>, \<open>add_edge a b w\<close> completes,
  stores \<open>w\<close> on the edge in both directions and leaves every other edge as it was.
\<close>
theorem add_edge_accepts_nonpositive:
  assumes "w \<le> 0"
  shows "edge (add_edge a b w g) a b = Some w \<and> edge (add_edge a b w g) b a = Some w \<and>
         (\<forall>x y. {x, y} \<noteq> {a, b} \<longrightarrow> edge (add_edge a b w g) x y = edge g x y)"
  by (auto simp: edge_add_edge)

theorem add_edge_accepts_nonpositive_witness:
  "(0::int) \<le> 0 \<and> edge (add_edge ''A'' ''Z'' 0 default_graph) ''A'' ''Z'' = Some 0 \<and>
   edge (add_edge ''A'' ''Z'' 0 default_graph) ''Z'' ''A'' = Some 0"
proof -
  have h: "(0::int) \<le> 0" by simp
  show ?thesis using h add_edge_accepts_nonpositive [OF h, of "''A''" "''Z''" default_graph] by simp
qed

text \<open>
  Claim C7: after \<open>add_edge a b w\<close> both \<open>a\<close> and \<open>b\<close> are nodes of the graph and the
  edge between them has weight \<open>w\<close> in both directions; a second \<open>add_edge\<close> on the same
  pair overwrites the weight, so that the later weight is the one in effect.
\<close>
theorem add_edge_members_and_overwrite:
  "a \<in> set (get_nodes (add_edge a b w g)) \<and> b \<in> set (get_nodes (add_edge a b w g)) \<and>
   edge (add_edge a b w g) a b = Some w \<and> edge (add_edge a b w g) b a = Some w \<and>
   edge (add_edge a b w2 (add_edge a b w1 g)) a b = Some w2 \<and>
   edge (add_edge a b w2 (add_edge a b w1 g)) b a = Some w2"
  by (simp add: in_get_nodes map_of_add_edge_None edge_add_edge)

text \<open>
  Claim C8: after \<open>remove_edge a b\<close> on a symmetric graph neither node is a neighbour of
  the other, every entry \<open>graph[x][y]\<close> with \<open>{x, y} \<noteq> {a, b}\<close> is unchanged, the list of
  nodes is the same (so \<open>a\<close> and \<open>b\<close> stay members), and when the edge is absent the
  graph is returned as it was.
\<close>
theorem remove_edge_frame:
  assumes "symmetric g"
  shows "edge (remove_edge a b g) a b = None \<and> edge (remove_edge a b g) b a = None \<and>
         (\<forall>x y. {x, y} \<noteq> {a, b} \<longrightarrow> edge (remove_edge a b g) x y = edge g x y) \<and>
         get_nodes (remove_edge a b g) = get_nodes g \<and>
         (edge g a b = None \<longrightarrow> remove_edge a b g = g)"
proof -
  from assms have "edge g b a = edge g a b"
    by (simp add: symmetric_iff)
  then have "edge g a b = None \<longrightarrow> remove_edge a b g = g"
    by (simp add: remove_edge_absent)
  moreover have "\<forall>x y. {x, y} \<noteq> {a, b} \<longrightarrow> edge (remove_edge a b g) x y = edge g x y"
    by (auto simp: edge_remove_edge)
  ultimately show ?thesis
    by (simp add: edge_remove_edge get_nodes_remove_edge)
qed

theorem remove_edge_frame_witness:
  "symmetric two_nodes \<and>
   edge (remove_edge ''A'' ''B'' two_nodes) ''A'' ''B'' = None \<and>
   edge (remove_edge ''A'' ''B'' two_nodes) ''B'' ''A'' = None \<and>
   get_nodes (remove_edge ''A'' ''B'' two_nodes) = [''A'', ''B''] \<and>
   edge two_nodes ''A'' ''C'' = None \<and> remove_edge ''A'' ''C'' two_nodes = two_nodes"
proof -
  have h: "symmetric two_nodes"
    by (simp add: symmetric_def two_nodes_def edge_def)
  have n: "edge two_nodes ''A'' ''C'' = None"
    by (simp add: two_nodes_def edge_def)
  have k: "get_nodes two_nodes = [''A'', ''B'']"
    by (simp add: two_nodes_def get_nodes_def)
  show ?thesis
    using h n k remove_edge_frame [OF h, of "''A''" "''B''"]
      remove_edge_frame [OF h, of "''A''" "''C''"] by simp
qed

section \<open>A self-loop is never relaxed\<close>

lemma relax_delete_visited:
  "v \<in> visited s \<Longrightarrow> relax m n (AList.delete v items) s = relax m n items s"
proof (induction items arbitrary: s)
  case Nil
  then show ?case by simp
next
  case (Cons x items)
  obtain nb w where x: "x = (nb, w)" by (cases x)
  show ?case
    using Cons.prems by (simp add: x Cons.IH Let_def split: option.splits)
qed

lemma map_of_remove_self:
  "map_of (remove_edge a a g) x =
     (if x = a then map_option (AList.delete a) (map_of g a) else map_of g x)"
proof (cases "edge g a a")
  case None
  then have "remove_edge a a g = g" by (simp add: remove_edge_absent)
  moreover have "AList.delete a adj = adj" if "map_of g a = Some adj" for adj
  proof -
    from that None have "map_of adj a = None" by (simp add: edge_def)
    then have "a \<notin> fst ` set adj" by (simp add: map_of_eq_None_iff)
    then show ?thesis by (simp add: delete_id)
  qed
  ultimately show ?thesis by (cases "map_of g a") auto
next
  case (Some w)
  then show ?thesis
    by (auto simp: edge_def remove_edge_def Let_def map_of_map_entry delete_conv'
             split: option.splits)
qed

lemma map_of_remove_self_None:
  "(map_of (remove_edge a a g) x = None) = (map_of g x = None)"
  by (auto simp: map_of_remove_self)

lemma loop_empty: "pq s = [] \<Longrightarrow> loop g e s = Inr s"
  by (subst loop.simps) simp

lemma loop_step:
  assumes "pq s \<noteq> []" and "Min (set (pq s)) = (m, n)"
  shows "loop g e s =
     (if n \<in> visited s then loop g e (s\<lparr>pq := remove1 (m, n) (pq s)\<rparr>)
      else if n = e
        then Inr (s\<lparr>pq := remove1 (m, n) (pq s), visited := insert n (visited s)\<rparr>)
        else (case map_of g n of
                None \<Rightarrow> Inl KeyError
              | Some items \<Rightarrow>
                  (case relax m n items
                          (s\<lparr>pq := remove1 (m, n) (pq s), visited := insert n (visited s)\<rparr>) of
                     Inl x \<Rightarrow> Inl x
                   | Inr s3 \<Rightarrow> loop g e s3)))"
  using assms by (subst loop.simps) (simp add: Let_def)

lemma loop_cases_induct [consumes 0, case_names empty stale reached missing expand]:
  fixes g :: "('n::linorder) graph"
  assumes empty: "\<And>s. pq s = [] \<Longrightarrow> P s"
    and stale: "\<And>s m n. pq s \<noteq> [] \<Longrightarrow> Min (set (pq s)) = (m, n) \<Longrightarrow> n \<in> visited s \<Longrightarrow>
                  P (s\<lparr>pq := remove1 (m, n) (pq s)\<rparr>) \<Longrightarrow> P s"
    and reached: "\<And>s m n. pq s \<noteq> [] \<Longrightarrow> Min (set (pq s)) = (m, n) \<Longrightarrow> n \<notin> visited s \<Longrightarrow>
                  n = e \<Longrightarrow> P s"
    and missing: "\<And>s m n. pq s \<noteq> [] \<Longrightarrow> Min (set (pq s)) = (m, n) \<Longrightarrow> n \<notin> visited s \<Longrightarrow>
                  n \<noteq> e \<Longrightarrow> map_of g n = None \<Longrightarrow> P s"
    and expand: "\<And>s m n items. pq s \<noteq> [] \<Longrightarrow> Min (set (pq s)) = (m, n) \<Longrightarrow>
                  n \<notin> visited s \<Longrightarrow> n \<noteq> e \<Longrightarrow> map_of g n = Some items \<Longrightarrow>
                  (\<And>s3. relax m n items
                           (s\<lparr>pq := remove1 (m, n) (pq s), visited := insert n (visited s)\<rparr>)
                         = Inr s3 \<Longrightarrow> P s3) \<Longrightarrow> P s"
  shows "P s"
proof -
  have "g' = g \<longrightarrow> e' = e \<longrightarrow> P s" for g' e'
  proof (induction g' e' s rule: loop.induct)
    case (1 graph end_node s)
    show ?case
    proof (intro impI)
      assume gr: "graph = g" and en: "end_node = e"
      show "P s"
      proof (cases "pq s = []")
        case True
        then show ?thesis by (rule empty)
      next
        case ne: False
        obtain m n where mn: "Min (set (pq s)) = (m, n)" by (cases "Min (set (pq s))")
        show ?thesis
        proof (cases "n \<in> visited s")
          case True
          have "P (s\<lparr>pq := remove1 (m, n) (pq s)\<rparr>)"
            using "1.IH"(1)[OF ne refl mn[symmetric] refl] True gr en by simp
          then show ?thesis by (rule stale[OF ne mn True])
        next
          case nv: False
          show ?thesis
          proof (cases "n = e")
            case True
            then show ?thesis by (rule reached[OF ne mn nv])
          next
            case nend: False
            show ?thesis
            proof (cases "map_of g n")
              case None
              then show ?thesis by (rule missing[OF ne mn nv nend])
            next
              case (Some items)
              have "P s3"
                if "relax m n items
                      (s\<lparr>pq := remove1 (m, n) (pq s), visited := insert n (visited s)\<rparr>)
                    = Inr s3"
                for s3
                using "1.IH"(2)[OF ne refl mn[symmetric] refl _ refl, of items s3]
                  nv nend Some that gr en
                by simp
              then show ?thesis by (rule expand[OF ne mn nv nend Some])
            qed
          qed
        qed
      qed
    qed
  qed
  then show ?thesis by simp
qed

lemma loop_remove_self: "loop (remove_edge a a g) e s = loop g e s"
proof (induction s rule: loop_cases_induct[where g = g and e = e])
  case (empty s)
  then show ?case by (simp add: loop_empty)
next
  case (stale s m n)
  then show ?case by (simp add: loop_step)
next
  case (reached s m n)
  then show ?case by (simp add: loop_step)
next
  case (missing s m n)
  then have "map_of (remove_edge a a g) n = None"
    by (simp add: map_of_remove_self_None)
  then show ?case using missing by (simp add: loop_step)
next
  case (expand s m n items)
  let ?s2 = "s\<lparr>pq := remove1 (m, n) (pq s), visited := insert n (visited s)\<rparr>"
  define items' where "items' = (if n = a then AList.delete a items else items)"
  have mg: "map_of (remove_edge a a g) n = Some items'"
    using expand(5) by (cases "n = a") (simp_all add: map_of_remove_self items'_def)
  have "relax m n (AList.delete a items) ?s2 = relax m n items ?s2" if "n = a"
    using that by (intro relax_delete_visited) simp
  then have r: "relax m n items' ?s2 = relax m n items ?s2"
    by (simp add: items'_def)
  show ?case using expand mg r
    by (simp add: loop_step split: sum.splits)
qed

lemma map_of_const_remove_self:
  "map_of (map (\<lambda>(node, adj). (node, c)) (remove_edge a a g)) =
   map_of (map (\<lambda>(node, adj). (node, c)) g)"
  by (rule ext) (simp add: map_of_const map_of_remove_self_None)

lemma init_state_remove_self: "init_state (remove_edge a a g) start = init_state g start"
  by (simp add: init_state_def map_of_const_remove_self)



lemma map_entry_twice: "AList.map_entry k f (AList.map_entry k h xs) = AList.map_entry k (f \<circ> h) xs"
  by (induction xs) auto

lemma map_entry_same: "map_of xs k = Some v \<Longrightarrow> f v = v \<Longrightarrow> AList.map_entry k f xs = xs"
  by (induction xs) (auto split: if_splits)

lemma remove_added_self_loop:
  assumes "map_of g a = Some adj" and "map_of adj a = None"
  shows "remove_edge a a (add_edge a a w g) = g"
proof -
  have a: "add_edge a a w g = AList.map_entry a (AList.update a w \<circ> AList.update a w) g"
    using assms by (simp add: add_edge_def Let_def map_entry_twice)
  have "a \<notin> fst ` set adj"
    using assms(2) by (simp add: map_of_eq_None_iff)
  then have d: "AList.delete a (AList.update a w (AList.update a w adj)) = adj"
    by (simp add: delete_update_same delete_id)
  have "remove_edge a a (add_edge a a w g) =
        AList.map_entry a (AList.delete a) (add_edge a a w g)"
    using assms by (simp add: remove_edge_def Let_def a map_of_map_entry update_conv' delete_conv')
  also have "\<dots> = AList.map_entry a (AList.delete a \<circ> (AList.update a w \<circ> AList.update a w)) g"
    by (simp add: a map_entry_twice)
  also have "\<dots> = g"
    using assms(1) d by (intro map_entry_same) auto
  finally show ?thesis .
qed

text \<open>
  Claim C10: \<open>add_edge a a w\<close> completes and records the self-loop \<open>graph[a][a] = w\<close>, and
  the self-loop never changes the result of \<open>dijkstra\<close>: when \<open>a\<close> is expanded it is
  already in \<open>visited\<close>, so its own entry is skipped. For every start and end the result
  on the graph with the self-loop is the result on the graph with only the entry
  \<open>graph[a][a]\<close> deleted; when \<open>a\<close> was a node without a self-loop before, that is the
  graph before the insertion.
\<close>

theorem self_loop_irrelevant:
  "a \<in> set (get_nodes (add_edge a a w g)) \<and>
   edge (add_edge a a w g) a a = Some w \<and>
   edge (remove_edge a a (add_edge a a w g)) a a = None \<and>
   (\<forall>x y. (x, y) \<noteq> (a, a) \<longrightarrow>
      edge (remove_edge a a (add_edge a a w g)) x y = edge (add_edge a a w g) x y) \<and>
   dijkstra (add_edge a a w g) start end_node =
     dijkstra (remove_edge a a (add_edge a a w g)) start end_node \<and>
   (a \<in> set (get_nodes g) \<and> edge g a a = None \<longrightarrow>
      dijkstra (add_edge a a w g) start end_node = dijkstra g start end_node)"
proof -
  have r: "dijkstra (remove_edge a a h) start end_node = dijkstra h start end_node" for h
    by (simp add: dijkstra_def loop_remove_self init_state_remove_self map_of_remove_self_None)
  have "remove_edge a a (add_edge a a w g) = g"
    if "a \<in> set (get_nodes g)" and "edge g a a = None"
  proof -
    from that(1) obtain adj where adj: "map_of g a = Some adj"
      by (auto simp: in_get_nodes)
    with that(2) have "map_of adj a = None"
      by (simp add: edge_def)
    with adj show ?thesis by (rule remove_added_self_loop)
  qed
  then have "a \<in> set (get_nodes g) \<and> edge g a a = None \<longrightarrow>
      dijkstra (add_edge a a w g) start end_node = dijkstra g start end_node"
    using r[of "add_edge a a w g"] by auto
  then show ?thesis
    using r[of "add_edge a a w g"]
    by (simp add: in_get_nodes map_of_add_edge_None edge_add_edge edge_remove_edge)
qed

theorem self_loop_irrelevant_witness:
  "''C'' \<in> set (get_nodes default_graph) \<and> edge default_graph ''C'' ''C'' = None \<and>
   edge (add_edge ''C'' ''C'' 1 default_graph) ''C'' ''C'' = Some 1 \<and>
   ((''A'', ''C'') \<noteq> (''C'', ''C'') \<and>
    edge (remove_edge ''C'' ''C'' (add_edge ''C'' ''C'' 1 default_graph)) ''A'' ''C'' =
      edge (add_edge ''C'' ''C'' 1 default_graph) ''A'' ''C'') \<and>
   dijkstra (add_edge ''C'' ''C'' 1 default_graph) ''A'' ''F'' =
     dijkstra default_graph ''A'' ''F''"
proof -
  have h1: "''C'' \<in> set (get_nodes default_graph)"
    by (simp add: get_nodes_def default_graph_def)
  have h2: "edge default_graph ''C'' ''C'' = None"
    by (simp add: edge_def default_graph_def)
  have h3: "(''A'', ''C'') \<noteq> (''C'', ''C'')"
    by simp
  note t = self_loop_irrelevant [of "''C''" 1 default_graph "''A''" "''F''"]
  have e: "edge (add_edge ''C'' ''C'' 1 default_graph) ''C'' ''C'' = Some 1"
    using t by (elim conjE)
  have f: "edge (remove_edge ''C'' ''C'' (add_edge ''C'' ''C'' 1 default_graph)) ''A'' ''C'' =
      edge (add_edge ''C'' ''C'' 1 default_graph) ''A'' ''C''"
    using t h3 by (elim conjE) (erule allE, erule allE, erule mp)
  have d: "dijkstra (add_edge ''C'' ''C'' 1 default_graph) ''A'' ''F'' =
     dijkstra default_graph ''A'' ''F''"
    using t h1 h2 by (elim conjE) (erule mp, rule conjI)
  show ?thesis
    using h1 h2 h3 e f d by (intro conjI)
qed

section \<open>Termination\<close>

lemma improve_simps [simp]:
  "visited (improve n nb d s) = visited s"
  "dist (improve n nb d s) = (dist s)(nb \<mapsto> Num d)"
  "parent (improve n nb d s) = (parent s)(nb \<mapsto> Some n)"
  "pq (improve n nb d s) = heappush (pq s) (d, nb)"
  by (simp_all add: improve_def)

lemma relax_Cons:
  "relax m n ((nb, w) # items) s =
     (if nb \<notin> visited s then
        (case dist s nb of
           None \<Rightarrow> Inl KeyError
         | Some d \<Rightarrow>
             if less_dist (m + w) d then relax m n items (improve n nb (m + w) s)
             else relax m n items s)
      else relax m n items s)"
  by (simp add: improve_def Let_def split: option.splits)

lemma relax_invariant_basic:
  assumes "relax m n items s = Inr s'" and "P s"
    and "\<And>t nb w d. P t \<Longrightarrow> (nb, w) \<in> set items \<Longrightarrow> nb \<notin> visited t \<Longrightarrow>
           dist t nb = Some d \<Longrightarrow> less_dist (m + w) d \<Longrightarrow> P (improve n nb (m + w) t)"
  shows "P s'"
  using assms
proof (induction items arbitrary: s)
  case Nil
  then show ?case by simp
next
  case (Cons x items)
  obtain nb w where x: "x = (nb, w)" by (cases x)
  have step: "P (improve n nb' (m + w') t)"
    if "P t" "(nb', w') \<in> set items" "nb' \<notin> visited t" "dist t nb' = Some d"
      "less_dist (m + w') d" for t nb' w' d
    using Cons.prems(3)[of t nb' w' d] that by simp
  show ?case
  proof (cases "nb \<notin> visited s \<and> (\<exists>d. dist s nb = Some d \<and> less_dist (m + w) d)")
    case True
    then obtain d where d: "nb \<notin> visited s" "dist s nb = Some d" "less_dist (m + w) d"
      by blast
    have r: "relax m n items (improve n nb (m + w) s) = Inr s'"
      using Cons.prems(1) d unfolding x relax_Cons by simp
    have p: "P (improve n nb (m + w) s)"
      using Cons.prems(3)[OF Cons.prems(2), of nb w d] d by (simp add: x)
    show ?thesis
      by (rule Cons.IH[OF r p]) (rule step)
  next
    case False
    then have r: "relax m n items s = Inr s'"
      using Cons.prems(1) unfolding x relax_Cons
      by (auto split: if_splits option.splits)
    show ?thesis
      by (rule Cons.IH[OF r Cons.prems(2)]) (rule step)
  qed
qed


lemma relax_invariant:
  assumes "relax m n items s = Inr s'" and "P s"
    and "\<And>t nb w d. P t \<Longrightarrow> (nb, w) \<in> set items \<Longrightarrow> nb \<notin> visited s \<Longrightarrow>
           visited t = visited s \<Longrightarrow>
           dist t nb = Some d \<Longrightarrow> less_dist (m + w) d \<Longrightarrow> P (improve n nb (m + w) t)"
  shows "P s'"
proof -
  have "P s' \<and> visited s' = visited s"
    by (rule relax_invariant_basic[OF assms(1), where P = "\<lambda>t. P t \<and> visited t = visited s"])
       (simp_all add: assms(2,3))
  then show ?thesis ..
qed

lemma pchain_mono: "pchain par V x \<Longrightarrow> V \<subseteq> V' \<Longrightarrow> pchain par V' x"
  by (induction rule: pchain.induct) (auto intro: pchain.intros)

lemma pchain_update:
  "pchain par V x \<Longrightarrow> nb \<notin> V \<Longrightarrow> x \<noteq> nb \<Longrightarrow> pchain (par(nb \<mapsto> v)) V x"
proof (induction rule: pchain.induct)
  case (root x)
  then show ?case by (auto intro: pchain.root)
next
  case (link x p)
  then have "p \<noteq> nb" by auto
  with link show ?case by (auto intro: pchain.link)
qed

lemma traceable_improve:
  assumes "traceable t" and "n \<in> visited t" and "nb \<notin> visited t"
  shows "traceable (improve n nb d t)"
proof -
  have pn: "pchain (parent t) (visited t) n"
    using assms(1,2) by (auto simp: traceable_def)
  have nn: "n \<noteq> nb" using assms(2,3) by auto
  have n': "pchain ((parent t)(nb \<mapsto> Some n)) (visited t) n"
    by (rule pchain_update[OF pn assms(3) nn])
  have "pchain ((parent t)(nb \<mapsto> Some n)) (visited t) x"
    if "((parent t)(nb \<mapsto> Some n)) x \<noteq> None" for x
  proof (cases "x = nb")
    case True
    show ?thesis
      unfolding True by (rule pchain.link[of _ _ n]) (simp_all add: assms(2) n')
  next
    case False
    with that have "parent t x \<noteq> None" by simp
    then have "pchain (parent t) (visited t) x"
      using assms(1) by (auto simp: traceable_def)
    then show ?thesis by (rule pchain_update[OF _ assms(3) False])
  qed
  moreover have "\<forall>v \<in> visited t. ((parent t)(nb \<mapsto> Some n)) v \<noteq> None"
    using assms(1) by (auto simp: traceable_def)
  moreover have "\<forall>e \<in> set (heappush (pq t) (d, nb)). ((parent t)(nb \<mapsto> Some n)) (snd e) \<noteq> None"
    using assms(1) by (auto simp: traceable_def heappush_def)
  ultimately show ?thesis
    unfolding traceable_def improve_simps by blast
qed

lemma traceable_relax:
  assumes "relax m n items s = Inr s'" and "traceable s" and "n \<in> visited s"
  shows "traceable s'"
proof (rule relax_invariant[OF assms(1), where P = traceable])
  show "traceable s" by fact
next
  fix t nb w d
  assume "traceable t" "nb \<notin> visited s" "visited t = visited s"
  then show "traceable (improve n nb (m + w) t)"
    using assms(3) by (intro traceable_improve) simp_all
qed

lemma traceable_pop:
  assumes "traceable s"
  shows "traceable (s\<lparr>pq := remove1 e (pq s)\<rparr>)"
  using assms set_remove1_subset[of e "pq s"] by (auto simp: traceable_def)

lemma traceable_visit:
  assumes "traceable s" and "(m, n) \<in> set (pq s)"
  shows "traceable (s\<lparr>pq := remove1 (m, n) (pq s), visited := insert n (visited s)\<rparr>)"
proof -
  have pn: "parent s n \<noteq> None"
    using assms by (force simp: traceable_def)
  have "pchain (parent s) (insert n (visited s)) x" if "parent s x \<noteq> None" for x
    using assms(1) that by (auto simp: traceable_def intro: pchain_mono)
  then show ?thesis
    using assms(1) pn set_remove1_subset[of "(m, n)" "pq s"]
    by (auto simp: traceable_def)
qed

lemma Min_pq_in: "pq s \<noteq> [] \<Longrightarrow> Min (set (pq s)) = e \<Longrightarrow> e \<in> set (pq s)"
  using Min_in[of "set (pq s)"] by auto

lemma traceable_loop: "loop g e s = Inr s' \<Longrightarrow> traceable s \<Longrightarrow> traceable s'"
proof (induction s rule: loop_cases_induct[where g = g and e = e])
  case (empty s)
  then show ?case by (simp add: loop_empty)
next
  case (stale s m n)
  then show ?case by (simp add: loop_step traceable_pop)
next
  case (reached s m n)
  have "(m, n) \<in> set (pq s)" using reached by (intro Min_pq_in)
  then have "traceable (s\<lparr>pq := remove1 (m, n) (pq s), visited := insert n (visited s)\<rparr>)"
    using reached by (intro traceable_visit)
  then show ?case using reached by (simp add: loop_step)
next
  case (missing s m n)
  then show ?case by (simp add: loop_step)
next
  case (expand s m n items)
  let ?s2 = "s\<lparr>pq := remove1 (m, n) (pq s), visited := insert n (visited s)\<rparr>"
  have "(m, n) \<in> set (pq s)" using expand by (intro Min_pq_in)
  then have t2: "traceable ?s2"
    using expand by (intro traceable_visit)
  from expand obtain s3 where s3: "relax m n items ?s2 = Inr s3" "loop g e s3 = Inr s'"
    by (auto simp: loop_step split: sum.splits)
  have "traceable s3"
    by (rule traceable_relax[OF s3(1) t2]) simp
  then show ?case using expand s3 by simp
qed

lemma traceable_init:
  assumes "map_of g start \<noteq> None"
  shows "traceable (init_state g start)"
proof -
  have p: "parent (init_state g start) x = (if map_of g x = None then None else Some None)" for x
    by (simp add: init_state_def map_of_const)
  have "pchain (parent (init_state g start)) V x" if "parent (init_state g start) x \<noteq> None" for x V
    using that by (intro pchain.root) (simp add: p split: if_splits)
  moreover have "visited (init_state g start) = {}" "pq (init_state g start) = [(0, start)]"
    by (simp_all add: init_state_def)
  moreover have "parent (init_state g start) start \<noteq> None"
    using assms by (simp add: p)
  ultimately show ?thesis
    unfolding traceable_def by simp
qed

lemma reconstruct_pchain:
  "pchain par V x \<Longrightarrow> \<exists>q. reconstruct par (Some x) acc = Some (Inr q)"
proof (induction arbitrary: acc rule: pchain.induct)
  case (root x)
  then show ?case by (simp add: reconstruct_Some reconstruct_None)
next
  case (link x p)
  then show ?case by (simp add: reconstruct_Some)
qed

lemma reconstruct_traceable:
  assumes "traceable s"
  shows "\<exists>r. reconstruct (parent s) (Some x) [] = Some r"
proof (cases "parent s x")
  case None
  then show ?thesis by (simp add: reconstruct_KeyError)
next
  case (Some a)
  then have "pchain (parent s) (visited s) x"
    using assms by (simp add: traceable_def)
  then show ?thesis using reconstruct_pchain by fastforce
qed

lemma dijkstra_unknown:
  "map_of g start = None \<or> map_of g end_node = None \<Longrightarrow>
   dijkstra g start end_node = Some (Inr (Infinity, []))"
  by (simp add: dijkstra_def)

lemma dijkstra_error:
  "map_of g start \<noteq> None \<Longrightarrow> map_of g end_node \<noteq> None \<Longrightarrow>
   loop g end_node (init_state g start) = Inl e \<Longrightarrow>
   dijkstra g start end_node = Some (Inl e)"
  by (auto simp: dijkstra_def)

lemma dijkstra_known:
  "map_of g start \<noteq> None \<Longrightarrow> map_of g end_node \<noteq> None \<Longrightarrow>
   loop g end_node (init_state g start) = Inr s \<Longrightarrow>
   dijkstra g start end_node =
     (case reconstruct (parent s) (Some end_node) [] of
        None \<Rightarrow> None
      | Some (Inl e) \<Rightarrow> Some (Inl e)
      | Some (Inr path) \<Rightarrow>
          (case dist s end_node of
             None \<Rightarrow> Some (Inl KeyError)
           | Some d \<Rightarrow>
               if d = Infinity then Some (Inr (Infinity, []))
               else Some (Inr (d, rev path))))"
  by (auto simp: dijkstra_def)

text \<open>
  Claim C9: for every graph and every start and end, \<open>dijkstra\<close> terminates. The main
  loop is a total function: an iteration either discards a stale heap entry, which shortens
  the heap, or visits a node of the graph that was not visited before, and only such an
  iteration pushes. The path reconstruction ends because every pointer leads to a node
  that was visited earlier. The result is a value (a distance with a path, or the
  \<^verbatim>\<open>KeyError\<close> of a graph with a neighbour that is not a node), never a run without end.
\<close>

theorem dijkstra_terminates: "\<exists>r. dijkstra g start end_node = Some r"
proof (cases "map_of g start = None \<or> map_of g end_node = None")
  case True
  then show ?thesis by (simp add: dijkstra_unknown)
next
  case False
  then have k: "map_of g start \<noteq> None" "map_of g end_node \<noteq> None"
    by simp_all
  show ?thesis
  proof (cases "loop g end_node (init_state g start)")
    case (Inl e)
    show ?thesis by (simp add: dijkstra_error[OF k Inl])
  next
    case (Inr s)
    have t: "traceable s"
      by (rule traceable_loop[OF Inr traceable_init[OF k(1)]])
    obtain r where r: "reconstruct (parent s) (Some end_node) [] = Some r"
      using reconstruct_traceable[OF t, of end_node] by (elim exE)
    have d: "dijkstra g start end_node =
       (case r of
          Inl e \<Rightarrow> Some (Inl e)
        | Inr path \<Rightarrow>
            (case dist s end_node of
               None \<Rightarrow> Some (Inl KeyError)
             | Some d \<Rightarrow>
                 if d = Infinity then Some (Inr (Infinity, []))
                 else Some (Inr (d, rev path))))"
      by (simp add: dijkstra_known[OF k Inr] r)
    show ?thesis
      unfolding d by (cases r; cases "dist s end_node") simp_all
  qed
qed

section \<open>Walks, and graphs whose neighbours are nodes\<close>

lemma walk_weight_snoc:
  "walk_weight g (q @ [c]) =
     (if map_of g c = None then None
      else if q = [] then Some 0
      else (case walk_weight g q of
              None \<Rightarrow> None
            | Some W \<Rightarrow> (case edge g (last q) c of None \<Rightarrow> None | Some w \<Rightarrow> Some (W + w))))"
proof (induction g q rule: walk_weight.induct)
  case (1 graph)
  then show ?case by simp
next
  case (2 graph x)
  then show ?case
    by (auto simp: edge_def split: option.splits)
next
  case (3 graph x y p)
  then show ?case
    by (auto split: option.splits)
qed

lemma walk_single: "map_of g a \<noteq> None \<Longrightarrow> walk g a a [a] 0"
  by (simp add: walk_def)

lemma walk_snoc:
  "walk g a b q W \<Longrightarrow> edge g b c = Some w \<Longrightarrow> map_of g c \<noteq> None \<Longrightarrow>
   walk g a c (q @ [c]) (W + w)"
  by (auto simp: walk_def walk_weight_snoc)

lemma walk_snoc_cases:
  assumes "walk g a c q W"
  shows "(q = [a] \<and> c = a \<and> W = 0 \<and> map_of g a \<noteq> None) \<or>
         (\<exists>q' b W' w. q = q' @ [c] \<and> walk g a b q' W' \<and> edge g b c = Some w \<and> W = W' + w \<and>
            map_of g c \<noteq> None)"
proof -
  from assms have ne: "q \<noteq> []" by (simp add: walk_def)
  then obtain q' c' where q: "q = q' @ [c']" by (metis rev_exhaust)
  with assms have c': "c' = c" by (simp add: walk_def)
  show ?thesis
  proof (cases "q' = []")
    case True
    with assms q c' show ?thesis
      by (auto simp: walk_def split: if_splits)
  next
    case False
    with assms q c' obtain W' w where "walk_weight g q' = Some W'" "edge g (last q') c = Some w"
      "W = W' + w" "map_of g c \<noteq> None"
      by (auto simp: walk_def walk_weight_snoc split: option.splits if_splits)
    moreover have "hd q' = a" using assms q False by (simp add: walk_def)
    ultimately have "walk g a (last q') q' W'" "edge g (last q') c = Some w" "W = W' + w"
      "map_of g c \<noteq> None"
      using False by (simp_all add: walk_def)
    then show ?thesis using q c' by blast
  qed
qed

lemma walk_induct [consumes 1, case_names single snoc]:
  assumes "walk g a c q W"
    and "map_of g a \<noteq> None \<Longrightarrow> P a [a] 0"
    and "\<And>q b W w c. walk g a b q W \<Longrightarrow> P b q W \<Longrightarrow> edge g b c = Some w \<Longrightarrow>
           map_of g c \<noteq> None \<Longrightarrow> P c (q @ [c]) (W + w)"
  shows "P c q W"
  using assms(1)
proof (induction q arbitrary: c W rule: rev_induct)
  case Nil
  then show ?case by (simp add: walk_def)
next
  case (snoc x q)
  from walk_snoc_cases[OF snoc.prems] show ?case
  proof (elim disjE exE conjE)
    assume "q @ [x] = [a]" "c = a" "W = 0" "map_of g a \<noteq> None"
    then show ?thesis using assms(2) by simp
  next
    fix q' b W' w
    assume h: "q @ [x] = q' @ [c]" "walk g a b q' W'" "edge g b c = Some w" "W = W' + w"
      "map_of g c \<noteq> None"
    then have "q' = q" "x = c" by simp_all
    with h have "P b q W'" using snoc.IH by simp
    with h \<open>q' = q\<close> \<open>x = c\<close> show ?thesis using assms(3)[of b q W' c w] by simp
  qed
qed

lemma edge_from_items:
  "map_of g n = Some items \<Longrightarrow> (nb, w) \<in> set items \<Longrightarrow> \<exists>w'. edge g n nb = Some w'"
  using map_of_keys[of items nb] by (force simp: edge_def)


lemma closedD:
  "closed g \<Longrightarrow> map_of g a = Some adj \<Longrightarrow> (b, w) \<in> set adj \<Longrightarrow> map_of g b \<noteq> None"
proof -
  assume c: "closed g" and a: "map_of g a = Some adj" and b: "(b, w) \<in> set adj"
  from a have "a \<in> set (map fst g)" using map_of_keys[of g a] by simp
  with c a have "\<forall>b \<in> set (map fst adj). map_of g b \<noteq> None"
    unfolding closed_def by (auto split: option.splits)
  moreover have "b \<in> set (map fst adj)" using b by force
  ultimately show ?thesis by blast
qed

lemma sound_init:
  assumes "map_of g start \<noteq> None"
  shows "sound g start (init_state g start)"
proof -
  let ?s = "init_state g start"
  have d: "dist ?s x = (if x = start then Some (Num 0)
                        else if map_of g x = None then None else Some Infinity)" for x
    by (simp add: init_state_def map_of_const)
  have p: "parent ?s x = (if map_of g x = None then None else Some None)" for x
    by (simp add: init_state_def map_of_const)
  have q: "pq ?s = [(0, start)]"
    by (simp add: init_state_def)
  have c: "connected g start start"
    using walk_single[OF assms] by (auto simp: connected_def)
  have 1: "\<forall>x. (dist ?s x \<noteq> None) = (map_of g x \<noteq> None)"
    using assms by (simp add: d)
  have 2: "\<forall>x. map_of g x \<noteq> None \<longrightarrow> parent ?s x \<noteq> None"
    by (simp add: p)
  have 3: "\<forall>e \<in> set (pq ?s). map_of g (snd e) \<noteq> None \<and> (\<exists>d. dist ?s (snd e) = Some (Num d))"
    using assms by (simp add: q d)
  have 4: "\<forall>x d. dist ?s x = Some (Num d) \<longrightarrow> connected g start x"
    using c by (simp add: d split: if_splits)
  show ?thesis
    unfolding sound_def using 1 2 3 4 by blast
qed

lemma sound_pop:
  assumes "sound g start s"
  shows "sound g start (s\<lparr>pq := remove1 e (pq s), visited := V\<rparr>)"
  using assms set_remove1_subset[of e "pq s"] unfolding sound_def by auto

lemma sound_improve:
  assumes "sound g start t" and "dist t nb = Some d0" and "connected g start nb"
  shows "sound g start (improve n nb d t)"
proof -
  have k: "map_of g nb \<noteq> None"
    using assms(1,2) unfolding sound_def by (metis option.distinct(1))
  have 1: "\<forall>x. (((dist t)(nb \<mapsto> Num d)) x \<noteq> None) = (map_of g x \<noteq> None)"
    using assms(1) k unfolding sound_def by auto
  have 2: "\<forall>x. map_of g x \<noteq> None \<longrightarrow> ((parent t)(nb \<mapsto> Some n)) x \<noteq> None"
    using assms(1) unfolding sound_def by auto
  have 3: "\<forall>e \<in> set (heappush (pq t) (d, nb)). map_of g (snd e) \<noteq> None \<and>
             (\<exists>d'. ((dist t)(nb \<mapsto> Num d)) (snd e) = Some (Num d'))"
    using assms(1) k unfolding sound_def heappush_def by auto
  have 4: "\<forall>x d'. ((dist t)(nb \<mapsto> Num d)) x = Some (Num d') \<longrightarrow> connected g start x"
    using assms(1,3) unfolding sound_def by auto
  show ?thesis
    unfolding sound_def improve_simps using 1 2 3 4 by blast
qed

lemma sound_relax:
  assumes "relax m n items s = Inr s'" and "sound g start s"
    and "map_of g n = Some items" and "connected g start n"
  shows "sound g start s'"
proof (rule relax_invariant[OF assms(1), where P = "sound g start"])
  show "sound g start s" by fact
next
  fix t nb w d
  assume t: "sound g start t" and i: "(nb, w) \<in> set items" and d: "dist t nb = Some d"
  from edge_from_items[OF assms(3) i] obtain w' where w': "edge g n nb = Some w'" ..
  have k: "map_of g nb \<noteq> None"
    using t d unfolding sound_def by (metis option.distinct(1))
  from assms(4) obtain q W where "walk g start n q W"
    by (auto simp: connected_def)
  from walk_snoc[OF this w' k] have "connected g start nb"
    by (auto simp: connected_def)
  then show "sound g start (improve n nb (m + w) t)"
    by (rule sound_improve[OF t d])
qed

lemma relax_ok:
  "\<forall>e \<in> set items. dist s (fst e) \<noteq> None \<Longrightarrow> \<exists>s'. relax m n items s = Inr s'"
proof (induction items arbitrary: s)
  case Nil
  then show ?case by simp
next
  case (Cons x items)
  obtain nb w where x: "x = (nb, w)" by (cases x)
  from Cons.prems obtain d where d: "dist s nb = Some d"
    by (auto simp: x)
  have 1: "\<exists>s'. relax m n items s = Inr s'"
    using Cons.prems by (intro Cons.IH) simp
  have 2: "\<exists>s'. relax m n items (improve n nb (m + w) s) = Inr s'"
    using Cons.prems by (intro Cons.IH) simp
  show ?case
    unfolding x relax_Cons using 1 2 d by simp
qed

lemma sound_connected:
  "sound g start s \<Longrightarrow> (m, n) \<in> set (pq s) \<Longrightarrow> connected g start n"
  unfolding sound_def by force

lemma sound_in_graph:
  "sound g start s \<Longrightarrow> (m, n) \<in> set (pq s) \<Longrightarrow> map_of g n \<noteq> None"
  unfolding sound_def by force

lemma loop_ok:
  assumes "closed g"
  shows "sound g start s \<Longrightarrow> \<exists>s'. loop g e s = Inr s' \<and> sound g start s'"
proof (induction s rule: loop_cases_induct[where g = g and e = e])
  case (empty s)
  then show ?case by (simp add: loop_empty)
next
  case (stale s m n)
  have "sound g start (s\<lparr>pq := remove1 (m, n) (pq s), visited := visited s\<rparr>)"
    by (rule sound_pop[OF stale.prems])
  then show ?case using stale by (simp add: loop_step)
next
  case (reached s m n)
  have "sound g start (s\<lparr>pq := remove1 (m, n) (pq s), visited := insert n (visited s)\<rparr>)"
    by (rule sound_pop[OF reached.prems])
  then show ?case using reached by (simp add: loop_step)
next
  case (missing s m n)
  have "(m, n) \<in> set (pq s)" using missing by (intro Min_pq_in)
  then have "map_of g n \<noteq> None" by (rule sound_in_graph[OF missing.prems])
  with missing show ?case by simp
next
  case (expand s m n items)
  let ?s2 = "s\<lparr>pq := remove1 (m, n) (pq s), visited := insert n (visited s)\<rparr>"
  have mn: "(m, n) \<in> set (pq s)" using expand by (intro Min_pq_in)
  have s2: "sound g start ?s2"
    by (rule sound_pop[OF expand.prems])
  have "dist ?s2 (fst x) \<noteq> None" if "x \<in> set items" for x
  proof -
    have "map_of g (fst x) \<noteq> None"
      using closedD[OF assms expand(5), of "fst x" "snd x"] that by simp
    then show ?thesis using s2 unfolding sound_def by blast
  qed
  then obtain s3 where s3: "relax m n items ?s2 = Inr s3"
    using relax_ok[of items ?s2 m n] by blast
  have "sound g start s3"
    by (rule sound_relax[OF s3 s2 expand(5) sound_connected[OF expand.prems mn]])
  from expand.IH[OF s3 this] show ?case
    using expand(1-5) s3 by (simp add: loop_step)
qed

lemma closed_result:
  assumes "closed g" and "map_of g start \<noteq> None" and "map_of g end_node \<noteq> None"
  obtains s path d where "loop g end_node (init_state g start) = Inr s"
    and "sound g start s" and "traceable s"
    and "reconstruct (parent s) (Some end_node) [] = Some (Inr path)"
    and "dist s end_node = Some d"
    and "dijkstra g start end_node =
           Some (Inr (if d = Infinity then (Infinity, []) else (d, rev path)))"
proof -
  from loop_ok[OF assms(1) sound_init[OF assms(2)], of end_node]
  obtain s where l: "loop g end_node (init_state g start) = Inr s" and s: "sound g start s"
    by blast
  have t: "traceable s"
    by (rule traceable_loop[OF l traceable_init[OF assms(2)]])
  from s assms(3) have "parent s end_node \<noteq> None"
    unfolding sound_def by blast
  with t have "pchain (parent s) (visited s) end_node"
    unfolding traceable_def by blast
  from reconstruct_pchain[OF this, of "[]"] obtain path
    where r: "reconstruct (parent s) (Some end_node) [] = Some (Inr path)" ..
  from s assms(3) obtain d where d: "dist s end_node = Some d"
    unfolding sound_def by blast
  have "dijkstra g start end_node =
           Some (Inr (if d = Infinity then (Infinity, []) else (d, rev path)))"
    by (simp add: dijkstra_known[OF assms(2,3) l] r d)
  with l s t r d show ?thesis by (rule that)
qed

text \<open>
  Claim C3, as the code behaves: on every graph in which each stored neighbour is itself a
  node (every symmetric graph is one), \<open>dijkstra\<close> returns a distance and a path for every
  start and end, never an error; when the start or the end is not a node of the graph, or
  no walk leads from the start to the end, the result is the same pair of the infinite
  distance and the empty path.
\<close>

theorem dijkstra_total:
  assumes "closed g"
  shows "(\<exists>d path. dijkstra g start end_node = Some (Inr (d, path))) \<and>
         (start \<notin> set (get_nodes g) \<or> end_node \<notin> set (get_nodes g) \<or>
          \<not> connected g start end_node \<longrightarrow>
            dijkstra g start end_node = Some (Inr (Infinity, [])))"
proof (cases "map_of g start = None \<or> map_of g end_node = None")
  case True
  then show ?thesis by (simp add: dijkstra_unknown)
next
  case False
  then have k: "map_of g start \<noteq> None" "map_of g end_node \<noteq> None"
    by simp_all
  from closed_result[OF assms k] obtain s path d
    where s: "sound g start s" and d: "dist s end_node = Some d"
      and r: "dijkstra g start end_node =
           Some (Inr (if d = Infinity then (Infinity, []) else (d, rev path)))"
    by metis
  have "d = Infinity" if "\<not> connected g start end_node"
  proof (cases d)
    case (Num x)
    with s d have "connected g start end_node"
      unfolding sound_def by blast
    with that show ?thesis by simp
  next
    case Infinity
    then show ?thesis .
  qed
  then show ?thesis
    using k by (auto simp: r in_get_nodes)
qed

lemma islands_not_connected: "\<not> connected islands ''A'' ''C''"
proof
  assume "connected islands ''A'' ''C''"
  then obtain q W where w: "walk islands ''A'' ''C'' q W"
    by (auto simp: connected_def)
  have "''C'' = ''A'' \<or> ''C'' = ''B''"
    using w
  proof (induction rule: walk_induct)
    case single
    then show ?case by simp
  next
    case (snoc q b W w c)
    then show ?case
      by (auto simp: edge_def islands_def split: if_splits)
  qed
  then show False by simp
qed

theorem dijkstra_total_witness:
  "closed islands \<and> \<not> connected islands ''A'' ''C'' \<and>
   dijkstra islands ''A'' ''C'' = Some (Inr (Infinity, [])) \<and>
   ''Z'' \<notin> set (get_nodes islands) \<and>
   dijkstra islands ''Z'' ''A'' = Some (Inr (Infinity, []))"
proof -
  have h: "closed islands"
    by (simp add: closed_def islands_def)
  have z: "''Z'' \<notin> set (get_nodes islands)"
    by (simp add: get_nodes_def islands_def)
  have 1: "dijkstra islands ''A'' ''C'' = Some (Inr (Infinity, []))"
    using dijkstra_total [OF h, of "''A''" "''C''"] islands_not_connected by (elim conjE) simp
  have 2: "dijkstra islands ''Z'' ''A'' = Some (Inr (Infinity, []))"
    using dijkstra_total [OF h, of "''Z''" "''A''"] z by (elim conjE) simp
  show ?thesis
    using h islands_not_connected z 1 2 by (intro conjI)
qed

text \<open>
  Claim C3, as stated, speaks of every graph. On a graph that stores a neighbour \<open>B\<close>
  which is not a node, the lookup \<^verbatim>\<open>dist[neighbor]\<close> raises \<^verbatim>\<open>KeyError\<close> although start
  and end are both nodes.
\<close>

theorem dijkstra_raises_on_dangling:
  "dijkstra dangling ''A'' ''C'' = Some (Inl KeyError)"
  by code_simp

section \<open>Shortest paths on graphs with positive weights\<close>


































end
